theory Spec2Isabelle
  imports Main "HOL-Library.Word"
begin

section \<open>JavaScript strings\<close>

text \<open>
  A JavaScript string is a sequence of 16-bit code units. String literals of the source
  are written with \<open>js\<close>, which maps every character of an Isabelle literal to its code
  unit.
\<close>

type_synonym jschar = "16 word"
type_synonym jsstring = "jschar list"

definition js :: "string \<Rightarrow> jsstring" where
  "js s = map of_char s"

definition SPACE :: jschar where
  "SPACE = 0x20"

definition NEWLINE :: jschar where
  "NEWLINE = 0x0A"

text \<open>
  The class \<^verbatim>\<open>\s\<close> of a regular expression and the characters removed by
  \<^verbatim>\<open>String.prototype.trim\<close> are the same set: WhiteSpace and LineTerminator of
  ECMAScript (TAB, LF, VT, FF, CR, SP, NBSP, the space separators of Unicode, LS, PS
  and the byte order mark).
\<close>

definition is_space :: "jschar \<Rightarrow> bool" where
  "is_space c \<longleftrightarrow>
     (0x09 \<le> c \<and> c \<le> 0x0D) \<or> c = 0x20 \<or> c = 0xA0 \<or> c = 0x1680 \<or>
     (0x2000 \<le> c \<and> c \<le> 0x200A) \<or> c = 0x2028 \<or> c = 0x2029 \<or> c = 0x202F \<or>
     c = 0x205F \<or> c = 0x3000 \<or> c = 0xFEFF"

text \<open>The word characters of \<^verbatim>\<open>\b\<close> (no unicode or ignore-case flag): \<^verbatim>\<open>[A-Za-z0-9_]\<close>.\<close>

definition is_word :: "jschar \<Rightarrow> bool" where
  "is_word c \<longleftrightarrow>
     (0x30 \<le> c \<and> c \<le> 0x39) \<or> (0x41 \<le> c \<and> c \<le> 0x5A) \<or> c = 0x5F \<or>
     (0x61 \<le> c \<and> c \<le> 0x7A)"

text \<open>\<^verbatim>\<open>String.prototype.trim\<close>: drop the white space at both ends.\<close>

definition trim :: "jsstring \<Rightarrow> jsstring" where
  "trim s = rev (dropWhile is_space (rev (dropWhile is_space s)))"

section \<open>Text normalisation (scrapeJobDetails, lines 41--44)\<close>

text \<open>
  \<^verbatim>\<open>.replace(/\s+/g, " ")\<close>: every maximal run of white space becomes one space.
\<close>

function collapse_ws :: "jsstring \<Rightarrow> jsstring" where
  "collapse_ws [] = []"
| "collapse_ws (c # cs) =
     (if is_space c then SPACE # collapse_ws (dropWhile is_space cs)
      else c # collapse_ws cs)"
  by pat_completeness auto
termination
  by (relation "measure length") (auto simp: length_dropWhile_le less_Suc_eq_le)

text \<open>
  \<^verbatim>\<open>.replace(/\b(Show more|Show less)\b/g, "")\<close>. The assertion \<^verbatim>\<open>\b\<close> holds between
  two positions when exactly one of the neighbouring characters is a word character;
  the start and the end of the string count as a non-word neighbour. The alternatives
  are tried in the order written.
\<close>

definition tokens :: "jsstring list" where
  "tokens = [js ''Show more'', js ''Show less'']"

fun is_word_opt :: "jschar option \<Rightarrow> bool" where
  "is_word_opt None = False"
| "is_word_opt (Some c) = is_word c"

definition word_boundary :: "jschar option \<Rightarrow> jschar option \<Rightarrow> bool" where
  "word_boundary a b \<longleftrightarrow> is_word_opt a \<noteq> is_word_opt b"

fun head_opt :: "'a list \<Rightarrow> 'a option" where
  "head_opt [] = None"
| "head_opt (x # xs) = Some x"

definition token_ends :: "jsstring \<Rightarrow> jsstring \<Rightarrow> bool" where
  "token_ends tok s \<longleftrightarrow>
     take (length tok) s = tok \<and>
     word_boundary (head_opt (rev tok)) (head_opt (drop (length tok) s))"

text \<open>
  The match of the regular expression at the current position, if there is one:
  \<open>prev\<close> is the character before the position (\<open>None\<close> at the start of the string),
  the result is the alternative that matched.
\<close>

definition match_at :: "jschar option \<Rightarrow> jsstring \<Rightarrow> jsstring option" where
  "match_at prev s =
     (if word_boundary prev (head_opt s) then find (\<lambda>tok. token_ends tok s) tokens
      else None)"

text \<open>
  The global replacement scans from left to right; after a match it goes on behind the
  match, otherwise it keeps the character and moves one position on.
\<close>

function remove_from :: "jschar option \<Rightarrow> jsstring \<Rightarrow> jsstring" where
  "remove_from prev [] = []"
| "remove_from prev (c # cs) =
     (case match_at prev (c # cs) of
        Some tok \<Rightarrow> remove_from (Some (last tok)) (drop (length tok) (c # cs))
      | None \<Rightarrow> c # remove_from (Some c) cs)"
  by pat_completeness auto
termination
  by (relation "measure (\<lambda>(p, s). length s)")
     (auto simp: match_at_def tokens_def js_def split: if_splits)

definition remove_tokens :: "jsstring \<Rightarrow> jsstring" where
  "remove_tokens s = remove_from None s"

definition normalize_description :: "jsstring \<Rightarrow> jsstring" where
  "normalize_description s = trim (remove_tokens (collapse_ws s))"

section \<open>Objects\<close>

text \<open>
  A plain object whose properties hold strings, as the records of this program are: the
  list of its own properties in the order in which \<^verbatim>\<open>Object.keys\<close> enumerates them
  (the order of insertion). Reading a property that the object does not have gives
  \<^verbatim>\<open>undefined\<close>; keys that name a member of \<^verbatim>\<open>Object.prototype\<close> are not modelled.
\<close>

type_synonym obj = "(jsstring \<times> jsstring) list"

datatype jsval = Undefined | Str jsstring

definition object_keys :: "obj \<Rightarrow> jsstring list" where
  "object_keys ob = map fst ob"

definition get_prop :: "obj \<Rightarrow> jsstring \<Rightarrow> jsval" where
  "get_prop ob k = (case map_of ob k of None \<Rightarrow> Undefined | Some v \<Rightarrow> Str v)"

text \<open>
  The assignment \<^verbatim>\<open>ob[k] = v\<close>: an existing property keeps its place, a new one is added
  at the end.
\<close>

fun set_prop :: "obj \<Rightarrow> jsstring \<Rightarrow> jsstring \<Rightarrow> obj" where
  "set_prop [] k v = [(k, v)]"
| "set_prop ((k', v') # ob) k v =
     (if k' = k then (k, v) # ob else (k', v') # set_prop ob k v)"

text \<open>The conversion to a string that a template literal applies to its value.\<close>

fun to_string :: "jsval \<Rightarrow> jsstring" where
  "to_string Undefined = js ''undefined''"
| "to_string (Str s) = s"

text \<open>\<^verbatim>\<open>Array.prototype.join\<close> on an array of strings.\<close>

fun join :: "jsstring \<Rightarrow> jsstring list \<Rightarrow> jsstring" where
  "join sep [] = []"
| "join sep [x] = x"
| "join sep (x # y # ys) = x @ sep @ join sep (y # ys)"

section \<open>Errors\<close>

datatype error =
    TypeError
  | LaunchFailed
  | NewPageFailed
  | NavigationFailed
  | ElementNotFound
  | WriteFailed

section \<open>The exporter (convertToCsv, lines 54--64)\<close>

definition DQUOTE :: jschar where
  "DQUOTE = 0x22"

text \<open>The template literal of line 59: the value between two double quotes.\<close>

definition quoted :: "jsval \<Rightarrow> jsstring" where
  "quoted v = [DQUOTE] @ to_string v @ [DQUOTE]"

definition csv_row :: "jsstring list \<Rightarrow> obj \<Rightarrow> jsstring" where
  "csv_row keys row = join (js '','') (map (\<lambda>key. quoted (get_prop row key)) keys)"

text \<open>
  The array \<^verbatim>\<open>csv\<close> after the loop of lines 58--61. \<^verbatim>\<open>data[0]\<close> of an empty array is
  \<^verbatim>\<open>undefined\<close>, and \<^verbatim>\<open>Object.keys(undefined)\<close> throws a TypeError.
\<close>

definition csv_lines :: "obj list \<Rightarrow> error + jsstring list" where
  "csv_lines data =
     (case data of
        [] \<Rightarrow> Inl TypeError
      | first # _ \<Rightarrow>
          (let keys = object_keys first;
               csv = [join (js '','') keys]
           in Inr (fold (\<lambda>row csv. csv @ [csv_row keys row]) data csv)))"

definition convertToCsv :: "obj list \<Rightarrow> error + jsstring" where
  "convertToCsv data =
     (case csv_lines data of
        Inl e \<Rightarrow> Inl e
      | Inr csv \<Rightarrow> Inr (join [NEWLINE] csv))"

text \<open>The lines of a document: its pieces between the newline characters.\<close>

fun split_lines :: "jsstring \<Rightarrow> jsstring list" where
  "split_lines [] = [[]]"
| "split_lines (c # cs) =
     (if c = NEWLINE then [] # split_lines cs
      else (case split_lines cs of
              [] \<Rightarrow> [[c]]
            | l # ls \<Rightarrow> (c # l) # ls))"

section \<open>The browser and the file system\<close>

text \<open>
  What the program observes of the outside world. A loaded page answers a selector with
  the \<^verbatim>\<open>textContent\<close> of the first element that matches it, if there is one
  (\<^verbatim>\<open>page.$eval\<close> rejects when there is none). The search page is seen through the
  anchors that match \<^verbatim>\<open>a.base-card__full-link\<close>, in document order
  (\<^verbatim>\<open>page.$$eval\<close> hands an empty array to its callback when there is none). The page
  that a navigation shows may depend on the position of the visit in the run, not only on
  the address. \<^verbatim>\<open>waitForTimeout\<close>, \<^verbatim>\<open>browser.close\<close> and the console do not fail.
\<close>

type_synonym page = "jsstring \<Rightarrow> jsstring option"

datatype anchor = Anchor (href: jsstring)

record world =
  launch_ok :: bool
  newpage_ok :: bool
  search_page :: "anchor list option"
  detail_page :: "nat \<Rightarrow> jsstring \<Rightarrow> page option"
  write_ok :: "jsstring \<Rightarrow> jsstring \<Rightarrow> bool"

text \<open>
  The effects of a run, in the order in which they happen. \<open>ConsoleError e\<close> is the
  message of line 98, which prints the error \<open>e\<close> that was caught.
\<close>

datatype event =
    LoaderStarted
  | BrowserLaunched
  | PageOpened
  | Navigated jsstring
  | BrowserClosed
  | LoaderStopped
  | FileWritten jsstring jsstring
  | ConsoleLog jsstring
  | ConsoleError error

section \<open>The detail extractor (scrapeJobDetails, lines 24--47)\<close>

definition APOSTROPHE :: jschar where
  "APOSTROPHE = 0x27"

definition selectors :: "(jsstring \<times> jsstring) list" where
  "selectors =
     [(js ''title'', js ''h1.topcard__title''),
      (js ''company'',
       js ''[href^='' @ [APOSTROPHE] @ js ''https://www.linkedin.com/company/'' @
       [APOSTROPHE] @ js '']''),
      (js ''location'', js ''.topcard__flavor.topcard__flavor--bullet''),
      (js ''description'', js ''section.show-more-less-html'')]"

text \<open>The loop of lines 37--39 over the entries of \<open>selectors\<close>.\<close>

fun extract_fields :: "page \<Rightarrow> (jsstring \<times> jsstring) list \<Rightarrow> obj \<Rightarrow> error + obj" where
  "extract_fields pg [] job = Inr job"
| "extract_fields pg ((key, selector) # rest) job =
     (case pg selector of
        None \<Rightarrow> Inl ElementNotFound
      | Some text \<Rightarrow> extract_fields pg rest (set_prop job key (trim text)))"

text \<open>
  An asynchronous function is modelled by the events it causes and its outcome: \<open>Inl\<close>
  when its promise is rejected, \<open>Inr\<close> when it is fulfilled. \<open>i\<close> is the number of detail
  pages visited before this one.
\<close>

definition scrapeJobDetails :: "world \<Rightarrow> nat \<Rightarrow> jsstring \<Rightarrow> event list \<times> (error + obj)" where
  "scrapeJobDetails w i jobLink =
     (case detail_page w i jobLink of
        None \<Rightarrow> ([], Inl NavigationFailed)
      | Some pg \<Rightarrow>
          ([Navigated jobLink],
           (case extract_fields pg selectors [] of
              Inl e \<Rightarrow> Inl e
            | Inr job \<Rightarrow>
                (case get_prop job (js ''description'') of
                   Undefined \<Rightarrow> Inl TypeError
                 | Str d \<Rightarrow> Inr (set_prop job (js ''description'') (normalize_description d))))))"

section \<open>The run (main, lines 69--100)\<close>

definition search_url :: jsstring where
  "search_url = js ''https://www.linkedin.com/jobs/search/?keywords=Web Developer''"

definition output_path :: jsstring where
  "output_path = js ''jobsData.csv''"

definition success_message :: jsstring where
  "success_message =
     [0x0A, 0x20, 0x1B] @ js ''[32mData scraped and saved to jobsData.csv'' @ [0x1B] @ js ''[0m''"

text \<open>Lines 76--78: the search page is loaded and the addresses of its listing cards are read.\<close>

definition collect_links :: "world \<Rightarrow> event list \<times> (error + jsstring list)" where
  "collect_links w =
     (case search_page w of
        None \<Rightarrow> ([], Inl NavigationFailed)
      | Some links \<Rightarrow> ([Navigated search_url], Inr (map href links)))"

text \<open>
  The loop of lines 81--84: \<open>i\<close> counts the pages visited so far and \<open>jobDetails\<close> is the
  array built so far. A rejection inside the loop leaves it at once.
\<close>

fun scrape_loop :: "world \<Rightarrow> nat \<Rightarrow> jsstring list \<Rightarrow> obj list \<Rightarrow> event list \<times> (error + obj list)" where
  "scrape_loop w i [] jobDetails = ([], Inr jobDetails)"
| "scrape_loop w i (jobLink # jobLinks) jobDetails =
     (case scrapeJobDetails w i jobLink of
        (ev, Inl e) \<Rightarrow> (ev, Inl e)
      | (ev, Inr details) \<Rightarrow>
          (case scrape_loop w (Suc i) jobLinks (jobDetails @ [details]) of
             (ev', r) \<Rightarrow> (ev @ ev', r)))"

text \<open>The body of the \<^verbatim>\<open>try\<close> block, lines 91--96.\<close>

definition export_try :: "world \<Rightarrow> obj list \<Rightarrow> event list \<times> (error + unit)" where
  "export_try w jobDetails =
     (case convertToCsv jobDetails of
        Inl e \<Rightarrow> ([], Inl e)
      | Inr csvData \<Rightarrow>
          (if write_ok w output_path csvData
           then ([FileWritten output_path csvData, ConsoleLog success_message], Inr ())
           else ([], Inl WriteFailed)))"

text \<open>The \<^verbatim>\<open>try\<close> statement with its \<^verbatim>\<open>catch\<close> clause, lines 90--99.\<close>

definition export_step :: "world \<Rightarrow> obj list \<Rightarrow> event list \<times> (error + unit)" where
  "export_step w jobDetails =
     (case export_try w jobDetails of
        (ev, Inl e) \<Rightarrow> (ev @ [ConsoleError e], Inr ())
      | (ev, Inr u) \<Rightarrow> (ev, Inr u))"

definition main :: "world \<Rightarrow> event list \<times> (error + unit)" where
  "main w =
     (if \<not> launch_ok w then ([LoaderStarted], Inl LaunchFailed)
      else if \<not> newpage_ok w then ([LoaderStarted, BrowserLaunched], Inl NewPageFailed)
      else
        (case collect_links w of
           (ev1, Inl e) \<Rightarrow> ([LoaderStarted, BrowserLaunched, PageOpened] @ ev1, Inl e)
         | (ev1, Inr jobLinks) \<Rightarrow>
             (case scrape_loop w 0 jobLinks [] of
                (ev2, Inl e) \<Rightarrow>
                  ([LoaderStarted, BrowserLaunched, PageOpened] @ ev1 @ ev2, Inl e)
              | (ev2, Inr jobDetails) \<Rightarrow>
                  (case export_step w jobDetails of
                     (ev3, r) \<Rightarrow>
                       ([LoaderStarted, BrowserLaunched, PageOpened] @ ev1 @ ev2 @
                        [BrowserClosed, LoaderStopped] @ ev3, r)))))"

section \<open>Notions used in the properties\<close>

text \<open>The field names of a job record, in the order of the entries of \<open>selectors\<close>.\<close>

definition field_names :: "jsstring list" where
  "field_names = [js ''title'', js ''company'', js ''location'', js ''description'']"

text \<open>A row as the specification describes it: every value between double quotes, joined by commas.\<close>

definition job_row :: "obj \<Rightarrow> jsstring" where
  "job_row job = join (js '','') (map (\<lambda>(k, v). [DQUOTE] @ v @ [DQUOTE]) job)"


text \<open>
  The regular expression of the boilerplate tokens has a match somewhere in a string;
  \<open>prev\<close> is the character before the string.
\<close>

fun has_token :: "jschar option \<Rightarrow> jsstring \<Rightarrow> bool" where
  "has_token prev [] = False"
| "has_token prev (c # cs) = (match_at prev (c # cs) \<noteq> None \<or> has_token (Some c) cs)"

text \<open>Two space characters next to each other.\<close>

fun has_double_space :: "jsstring \<Rightarrow> bool" where
  "has_double_space (a # b # s) = ((a = SPACE \<and> b = SPACE) \<or> has_double_space (b # s))"
| "has_double_space s = False"

subsection \<open>Example data\<close>

definition example_jobs :: "obj list" where
  "example_jobs =
     [[(js ''title'', js ''A''), (js ''company'', js ''B''), (js ''location'', js ''C''),
       (js ''description'', js ''D'')],
      [(js ''title'', js ''E''), (js ''company'', js ''F''), (js ''location'', js ''G''),
       (js ''description'', js ''H'')]]"

definition newline_job :: obj where
  "newline_job =
     [(js ''title'', js ''A'' @ [NEWLINE] @ js ''B''), (js ''company'', js ''C''),
      (js ''location'', js ''D''), (js ''description'', js ''E'')]"

definition full_page :: page where
  "full_page selector = Some (js '' Web Developer Show more Show less '')"

definition bare_page :: page where
  "bare_page selector = (if selector = js ''h1.topcard__title'' then Some (js ''Tester'') else None)"

definition link1 :: jsstring where
  "link1 = js ''https://www.linkedin.com/jobs/view/1''"

definition link2 :: jsstring where
  "link2 = js ''https://www.linkedin.com/jobs/view/2''"

text \<open>Two listings; the page of the second one has a title and nothing else.\<close>

definition broken_world :: world where
  "broken_world =
     \<lparr>launch_ok = True, newpage_ok = True,
      search_page = Some [Anchor link1, Anchor link2],
      detail_page = (\<lambda>i jobLink. Some (if i = 0 then full_page else bare_page)),
      write_ok = (\<lambda>path data. True)\<rparr>"

text \<open>One listing with a complete page; the file cannot be written.\<close>

definition readonly_world :: world where
  "readonly_world =
     \<lparr>launch_ok = True, newpage_ok = True,
      search_page = Some [Anchor link1],
      detail_page = (\<lambda>i jobLink. Some full_page),
      write_ok = (\<lambda>path data. False)\<rparr>"

text \<open>No listing on the search page.\<close>

definition empty_world :: world where
  "empty_world =
     \<lparr>launch_ok = True, newpage_ok = True,
      search_page = Some [],
      detail_page = (\<lambda>i jobLink. None),
      write_ok = (\<lambda>path data. True)\<rparr>"

text \<open>The record that the extractor reads from \<open>full_page\<close>.\<close>

definition full_job :: obj where
  "full_job =
     [(js ''title'', js ''Web Developer Show more Show less''),
      (js ''company'', js ''Web Developer Show more Show less''),
      (js ''location'', js ''Web Developer Show more Show less''),
      (js ''description'', js ''Web Developer'')]"



section \<open>Properties of the normalisation\<close>

lemma space_not_word: "is_space c \<Longrightarrow> \<not> is_word c"
  unfolding is_space_def is_word_def
  by (auto simp: word_le_nat_alt word_less_nat_alt)

lemma SPACE_is_space: "is_space SPACE"
  by (simp add: is_space_def SPACE_def)

lemma tokens_shape:
  assumes "tok \<in> set tokens"
  shows "\<exists>a w1 b w2. tok = a # w1 @ SPACE # b # w2 \<and> is_word a \<and> (\<forall>x\<in>set w1. is_word x) \<and>
           is_word b \<and> (\<forall>x\<in>set w2. is_word x)"
proof -
  have "tok = js ''Show more'' \<or> tok = js ''Show less''"
    using assms by (auto simp: tokens_def)
  then show ?thesis
  proof
    assume "tok = js ''Show more''"
    then have "tok = of_char CHR ''S'' # js ''how'' @ SPACE # of_char CHR ''m'' # js ''ore''"
      by (simp add: js_def SPACE_def)
    moreover have "is_word (of_char CHR ''S'')" "\<forall>x\<in>set (js ''how''). is_word x"
      "is_word (of_char CHR ''m'')" "\<forall>x\<in>set (js ''ore''). is_word x"
      by (simp_all add: js_def is_word_def)
    ultimately show ?thesis by blast
  next
    assume "tok = js ''Show less''"
    then have "tok = of_char CHR ''S'' # js ''how'' @ SPACE # of_char CHR ''l'' # js ''ess''"
      by (simp add: js_def SPACE_def)
    moreover have "is_word (of_char CHR ''S'')" "\<forall>x\<in>set (js ''how''). is_word x"
      "is_word (of_char CHR ''l'')" "\<forall>x\<in>set (js ''ess''). is_word x"
      by (simp_all add: js_def is_word_def)
    ultimately show ?thesis by blast
  qed
qed

lemma token_ends_append:
  "tok \<noteq> [] \<Longrightarrow>
   token_ends tok s \<longleftrightarrow> (\<exists>r. s = tok @ r \<and> word_boundary (Some (last tok)) (head_opt r))"
proof -
  assume ne: "tok \<noteq> []"
  then have h: "head_opt (rev tok) = Some (last tok)"
    by (cases tok rule: rev_cases) simp_all
  show ?thesis
  proof
    assume t: "token_ends tok s"
    then have "s = tok @ drop (length tok) s"
      unfolding token_ends_def by (metis append_take_drop_id)
    with t h show "\<exists>r. s = tok @ r \<and> word_boundary (Some (last tok)) (head_opt r)"
      unfolding token_ends_def by auto
  next
    assume "\<exists>r. s = tok @ r \<and> word_boundary (Some (last tok)) (head_opt r)"
    with h show "token_ends tok s" unfolding token_ends_def by auto
  qed
qed

text \<open>A match is an occurrence of a token between a non-word neighbour on each side.\<close>

lemma match_at_iff:
  "match_at prev s \<noteq> None \<longleftrightarrow>
     \<not> is_word_opt prev \<and>
     (\<exists>tok\<in>set tokens. \<exists>r. s = tok @ r \<and> \<not> is_word_opt (head_opt r))"
proof -
  have tok_ne: "tok \<noteq> []" if "tok \<in> set tokens" for tok
    using tokens_shape[OF that] by auto
  have last_word: "is_word (last tok)" if "tok \<in> set tokens" for tok
  proof -
    from tokens_shape[OF that] obtain a w1 b w2 where
      t: "tok = a # w1 @ SPACE # b # w2" and w: "is_word b" "\<forall>x\<in>set w2. is_word x" by blast
    have "last tok = last (b # w2)" unfolding t by simp
    also have "last (b # w2) \<in> set (b # w2)" by (rule last_in_set) simp
    finally show ?thesis using w by auto
  qed
  have hd_word: "is_word_opt (head_opt (tok @ r))" if "tok \<in> set tokens" for tok r
    using tokens_shape[OF that] by auto
  show ?thesis
  proof
    assume "match_at prev s \<noteq> None"
    then obtain tok where b: "word_boundary prev (head_opt s)" and f: "find (\<lambda>tok. token_ends tok s) tokens = Some tok"
      unfolding match_at_def by (auto split: if_splits)
    from f have tk: "tok \<in> set tokens" and te: "token_ends tok s"
      by (auto simp: find_Some_iff)
    from te tok_ne[OF tk] obtain r where r: "s = tok @ r" "word_boundary (Some (last tok)) (head_opt r)"
      by (auto simp: token_ends_append)
    from r(2) last_word[OF tk] have "\<not> is_word_opt (head_opt r)" by (simp add: word_boundary_def)
    moreover from b r(1) hd_word[OF tk, of r] have "\<not> is_word_opt prev" by (simp add: word_boundary_def)
    ultimately show "\<not> is_word_opt prev \<and>
     (\<exists>tok\<in>set tokens. \<exists>r. s = tok @ r \<and> \<not> is_word_opt (head_opt r))"
      using tk r(1) by blast
  next
    assume a: "\<not> is_word_opt prev \<and>
     (\<exists>tok\<in>set tokens. \<exists>r. s = tok @ r \<and> \<not> is_word_opt (head_opt r))"
    then obtain tok r where tk: "tok \<in> set tokens" and r: "s = tok @ r" "\<not> is_word_opt (head_opt r)"
      by blast
    from r last_word[OF tk] tok_ne[OF tk] have "token_ends tok s"
      by (auto simp: token_ends_append word_boundary_def)
    with tk have "find (\<lambda>tok. token_ends tok s) tokens \<noteq> None"
      by (auto simp: find_None_iff)
    moreover from a r(1) hd_word[OF tk, of r] have "word_boundary prev (head_opt s)"
      by (simp add: word_boundary_def)
    ultimately show "match_at prev s \<noteq> None" by (simp add: match_at_def)
  qed
qed


lemma match_at_word_prev: "is_word_opt prev \<Longrightarrow> match_at prev s = None"
  using match_at_iff[of prev s] by auto

lemma match_at_prev_cong:
  "is_word_opt p = is_word_opt q \<Longrightarrow> (match_at p s \<noteq> None) = (match_at q s \<noteq> None)"
  unfolding match_at_iff by simp

lemma match_at_head_word: "match_at prev s \<noteq> None \<Longrightarrow> is_word_opt (head_opt s)"
  unfolding match_at_iff using tokens_shape by fastforce

lemma match_at_Some:
  assumes "match_at prev s = Some tok"
  shows "tok \<in> set tokens \<and> \<not> is_word_opt prev \<and> is_word (last tok) \<and> tok \<noteq> [] \<and>
         (\<exists>r. s = tok @ r \<and> drop (length tok) s = r \<and> \<not> is_word_opt (head_opt r))"
proof -
  from assms have f: "find (\<lambda>tok. token_ends tok s) tokens = Some tok"
    unfolding match_at_def by (auto split: if_splits)
  then have tk: "tok \<in> set tokens" and te: "token_ends tok s"
    by (auto simp: find_Some_iff)
  from tokens_shape[OF tk] obtain a w1 b w2 where
    t: "tok = a # w1 @ SPACE # b # w2" and w: "is_word b" "\<forall>x\<in>set w2. is_word x" by blast
  have "last tok = last (b # w2)" unfolding t by simp
  also have "last (b # w2) \<in> set (b # w2)" by (rule last_in_set) simp
  finally have lw: "is_word (last tok)" using w by auto
  from t have ne: "tok \<noteq> []" by simp
  from te ne obtain r where r: "s = tok @ r" "word_boundary (Some (last tok)) (head_opt r)"
    by (auto simp: token_ends_append)
  with lw have "\<not> is_word_opt (head_opt r)" by (simp add: word_boundary_def)
  moreover from assms have "\<not> is_word_opt prev" using match_at_word_prev[of prev s] by auto
  ultimately show ?thesis using tk lw ne r(1) by auto
qed

text \<open>Behind a word character the scan keeps the next character.\<close>

lemma remove_from_word_prev:
  "is_word p \<Longrightarrow> remove_from (Some p) (x # xs) = x # remove_from (Some x) xs"
  by (simp add: match_at_word_prev)

lemma remove_from_no_match:
  "match_at prev (x # xs) = None \<Longrightarrow> remove_from prev (x # xs) = x # remove_from (Some x) xs"
  by simp

text \<open>What follows a removed token starts with a non-word character.\<close>

lemma remove_from_head_non_word:
  "\<not> is_word_opt (head_opt s) \<Longrightarrow> \<not> is_word_opt (head_opt (remove_from prev s))"
proof (cases s)
  case Nil
  then show ?thesis by simp
next
  case (Cons x xs)
  assume "\<not> is_word_opt (head_opt s)"
  with Cons have nw: "\<not> is_word x" by simp
  have "match_at prev (x # xs) = None"
  proof (rule ccontr)
    assume "match_at prev (x # xs) \<noteq> None"
    from match_at_head_word[OF this] nw show False by simp
  qed
  with Cons nw show ?thesis by simp
qed

lemma remove_from_match_head:
  assumes "match_at prev s \<noteq> None"
  shows "\<not> is_word_opt (head_opt (remove_from prev s))"
proof -
  from assms obtain tok where m: "match_at prev s = Some tok" by auto
  from match_at_Some[OF m] obtain r where
    r: "s = tok @ r" "drop (length tok) s = r" "\<not> is_word_opt (head_opt r)" and ne: "tok \<noteq> []"
    by blast
  from ne r(1) obtain c cs where s: "s = c # cs" by (cases tok) auto
  have "remove_from prev s = remove_from (Some (last tok)) r"
    using m r(2) unfolding s by simp
  with remove_from_head_non_word[OF r(3)] show ?thesis by simp
qed

text \<open>A run of word characters in the output is a run of the input, character by character.\<close>

lemma remove_from_word_run:
  "\<forall>x\<in>set w. is_word x \<Longrightarrow> is_word p \<Longrightarrow> remove_from (Some p) s = w @ r \<Longrightarrow>
   \<exists>s'. s = w @ s' \<and> r = remove_from (Some (last (p # w))) s'"
proof (induction w arbitrary: p s)
  case Nil
  then show ?case by simp
next
  case (Cons x w)
  from Cons.prems(3) obtain y ys where s: "s = y # ys" by (cases s) auto
  from Cons.prems(3) have "y # remove_from (Some y) ys = x # w @ r"
    unfolding s remove_from_word_prev[OF Cons.prems(2)] append_Cons .
  then have yr: "y = x \<and> remove_from (Some y) ys = w @ r" unfolding list.inject .
  then have y: "y = x" by (rule conjunct1)
  from yr have rest: "remove_from (Some x) ys = w @ r" unfolding y by (rule conjunct2)
  from Cons.prems(1) have "\<forall>x\<in>set w. is_word x" "is_word x" by simp_all
  from Cons.IH[OF this rest] obtain s' where "ys = w @ s'" "r = remove_from (Some (last (x # w))) s'"
    by blast
  with s y show ?case by simp
qed


lemma remove_from_word_prev_head:
  assumes "is_word p"
  shows "head_opt (remove_from (Some p) s) = head_opt s"
proof (cases s)
  case Nil
  then show ?thesis by simp
next
  case (Cons x xs)
  show ?thesis unfolding Cons remove_from_word_prev[OF assms] by simp
qed

text \<open>
  A match that starts at a kept character of the output is a match at the same place of
  the input: between its characters nothing was removed.
\<close>

lemma match_after_removal:
  assumes "match_at prev (c # remove_from (Some c) cs) \<noteq> None"
  shows "match_at prev (c # cs) \<noteq> None"
proof -
  from assms obtain tok r where np: "\<not> is_word_opt prev" and tk: "tok \<in> set tokens"
    and eq: "c # remove_from (Some c) cs = tok @ r" and nr: "\<not> is_word_opt (head_opt r)"
    unfolding match_at_iff by blast
  from tokens_shape[OF tk] obtain a w1 b w2 where
    t: "tok = a # w1 @ SPACE # b # w2" and wa: "is_word a" and w1: "\<forall>x\<in>set w1. is_word x"
    and wb: "is_word b" and w2: "\<forall>x\<in>set w2. is_word x" by blast
  from eq have ca: "c = a" and out: "remove_from (Some a) cs = w1 @ (SPACE # b # w2 @ r)"
    unfolding t by auto
  from remove_from_word_run[OF w1 wa out] obtain s1 where
    s1: "cs = w1 @ s1" and o1: "SPACE # b # w2 @ r = remove_from (Some (last (a # w1))) s1"
    by blast
  have "last (a # w1) \<in> set (a # w1)" by (rule last_in_set) simp
  with wa w1 have wq: "is_word (last (a # w1))" by auto
  from o1 obtain y s2 where s1c: "s1 = y # s2" by (cases s1) auto
  from o1 have "SPACE # b # w2 @ r = y # remove_from (Some y) s2"
    unfolding s1c remove_from_word_prev[OF wq] .
  then have ys: "SPACE = y \<and> b # w2 @ r = remove_from (Some y) s2" unfolding list.inject .
  then have y: "y = SPACE" by simp
  from ys have o2: "remove_from (Some SPACE) s2 = b # w2 @ r" unfolding y by simp
  have m2: "match_at (Some SPACE) s2 = None"
  proof (rule ccontr)
    assume "match_at (Some SPACE) s2 \<noteq> None"
    from remove_from_match_head[OF this] wb show False unfolding o2 by simp
  qed
  from o2 obtain z s3 where s2c: "s2 = z # s3" by (cases s2) auto
  from o2 have "z # remove_from (Some z) s3 = b # w2 @ r"
    unfolding s2c remove_from_no_match[OF m2[unfolded s2c]] .
  then have zs: "z = b \<and> remove_from (Some z) s3 = w2 @ r" unfolding list.inject .
  then have z: "z = b" by simp
  from zs have o3: "remove_from (Some b) s3 = w2 @ r" unfolding z by simp
  from remove_from_word_run[OF w2 wb o3] obtain s4 where
    s4: "s3 = w2 @ s4" and o4: "r = remove_from (Some (last (b # w2))) s4" by blast
  have "last (b # w2) \<in> set (b # w2)" by (rule last_in_set) simp
  with wb w2 have wl: "is_word (last (b # w2))" by auto
  from nr have n4: "\<not> is_word_opt (head_opt s4)"
    unfolding o4 remove_from_word_prev_head[OF wl] .
  have "c # cs = tok @ s4"
    unfolding ca s1 s1c y s2c z s4 t by simp
  with np tk n4 show ?thesis unfolding match_at_iff by blast
qed


text \<open>
  The output of the scan has no match. \<open>pu\<close> is the character before the current
  position in the output: the same as in the input, or, directly behind a removed token,
  the non-word character before that token.
\<close>

lemma no_token_after_scan:
  "pu = prev \<or> (is_word_opt prev \<and> \<not> is_word_opt pu \<and> \<not> is_word_opt (head_opt s)) \<Longrightarrow>
   \<not> has_token pu (remove_from prev s)"
proof (induction prev s arbitrary: pu rule: remove_from.induct)
  case (1 prev)
  then show ?case by simp
next
  case (2 prev c cs)
  show ?case
  proof (cases "match_at prev (c # cs)")
    case (Some tok)
    from match_at_Some[OF Some] have np: "\<not> is_word_opt prev" and lw: "is_word (last tok)"
      and nr: "\<not> is_word_opt (head_opt (drop (length tok) (c # cs)))"
      by auto
    from np "2.prems" have "pu = prev" by blast
    with np lw nr have
      "pu = Some (last tok) \<or>
       (is_word_opt (Some (last tok)) \<and> \<not> is_word_opt pu \<and>
        \<not> is_word_opt (head_opt (drop (length tok) (c # cs))))"
      by simp
    from "2.IH"(2)[OF Some this] show ?thesis using Some by simp
  next
    case None
    have "\<not> has_token (Some c) (remove_from (Some c) cs)"
      by (rule "2.IH"(1)[OF None]) simp
    moreover have "match_at pu (c # remove_from (Some c) cs) = None"
    proof (rule ccontr)
      assume m: "match_at pu (c # remove_from (Some c) cs) \<noteq> None"
      from "2.prems" show False
      proof
        assume "pu = prev"
        with match_after_removal[OF m] None show False by simp
      next
        assume "is_word_opt prev \<and> \<not> is_word_opt pu \<and> \<not> is_word_opt (head_opt (c # cs))"
        with match_at_head_word[OF m] show False by simp
      qed
    qed
    ultimately show ?thesis using None by simp
  qed
qed

lemma no_token_after_removal: "\<not> has_token None (remove_tokens s)"
  unfolding remove_tokens_def by (rule no_token_after_scan) simp


lemma has_token_prev_cong:
  "is_word_opt p = is_word_opt q \<Longrightarrow> has_token p s = has_token q s"
proof (cases s)
  case Nil
  then show ?thesis by simp
next
  case (Cons c cs)
  assume "is_word_opt p = is_word_opt q"
  from match_at_prev_cong[OF this, of "c # cs"] show ?thesis
    unfolding Cons has_token.simps by (rule arg_cong)
qed

lemma no_token_dropWhile:
  "\<not> is_word_opt p \<Longrightarrow> \<not> has_token p s \<Longrightarrow> \<not> has_token p (dropWhile is_space s)"
proof (induction s)
  case Nil
  then show ?case by simp
next
  case (Cons c cs)
  show ?case
  proof (cases "is_space c")
    case True
    from Cons.prems(2) have "\<not> has_token (Some c) cs" by simp
    moreover have "is_word_opt (Some c) = is_word_opt p"
      using True Cons.prems(1) by (simp add: space_not_word)
    ultimately have "\<not> has_token p cs" using has_token_prev_cong by blast
    from Cons.IH[OF Cons.prems(1) this] True show ?thesis by simp
  next
    case False
    with Cons.prems(2) show ?thesis by simp
  qed
qed

lemma match_at_snoc:
  assumes "match_at p s \<noteq> None" and "\<not> is_word c"
  shows "match_at p (s @ [c]) \<noteq> None"
proof -
  from assms(1) obtain tok r where np: "\<not> is_word_opt p" and tk: "tok \<in> set tokens"
    and s: "s = tok @ r" and nr: "\<not> is_word_opt (head_opt r)"
    unfolding match_at_iff by blast
  have "\<not> is_word_opt (head_opt (r @ [c]))"
    using nr assms(2) by (cases r) simp_all
  moreover have "s @ [c] = tok @ (r @ [c])" unfolding s by simp
  ultimately show ?thesis using np tk unfolding match_at_iff by blast
qed

lemma has_token_snoc:
  "has_token p s \<Longrightarrow> \<not> is_word c \<Longrightarrow> has_token p (s @ [c])"
proof (induction s arbitrary: p)
  case Nil
  then show ?case by simp
next
  case (Cons x xs)
  from Cons.prems(1) have "match_at p (x # xs) \<noteq> None \<or> has_token (Some x) xs" by simp
  then show ?case
  proof
    assume "match_at p (x # xs) \<noteq> None"
    from match_at_snoc[OF this Cons.prems(2)] show ?thesis by simp
  next
    assume "has_token (Some x) xs"
    from Cons.IH[OF this Cons.prems(2)] show ?thesis by simp
  qed
qed

lemma has_token_append_non_words:
  "has_token p s \<Longrightarrow> \<forall>c\<in>set ws. \<not> is_word c \<Longrightarrow> has_token p (s @ ws)"
proof (induction ws arbitrary: s)
  case Nil
  then show ?case by simp
next
  case (Cons c ws)
  from Cons.prems have "has_token p (s @ [c])" by (simp add: has_token_snoc)
  from Cons.IH[OF this] Cons.prems(2) show ?case by simp
qed

lemma no_token_trim:
  assumes "\<not> has_token None s"
  shows "\<not> has_token None (trim s)"
proof
  assume h: "has_token None (trim s)"
  let ?d = "dropWhile is_space s"
  let ?ws = "rev (takeWhile is_space (rev ?d))"
  have "rev ?d = takeWhile is_space (rev ?d) @ dropWhile is_space (rev ?d)" by simp
  then have "rev (rev ?d) = rev (takeWhile is_space (rev ?d) @ dropWhile is_space (rev ?d))"
    by (rule arg_cong)
  then have d: "?d = trim s @ ?ws" unfolding trim_def rev_append rev_rev_ident .
  have "\<forall>c\<in>set ?ws. \<not> is_word c"
    using space_not_word by (auto dest: set_takeWhileD)
  from has_token_append_non_words[OF h this] have "has_token None ?d" unfolding d[symmetric] .
  moreover have "\<not> has_token None ?d" by (rule no_token_dropWhile[OF _ assms]) simp
  ultimately show False by blast
qed

lemma remove_from_id: "\<not> has_token p s \<Longrightarrow> remove_from p s = s"
  by (induction s arbitrary: p) simp_all

lemma collapse_ws_spaces: "c \<in> set (collapse_ws s) \<Longrightarrow> is_space c \<Longrightarrow> c = SPACE"
  by (induction s rule: collapse_ws.induct) (auto split: if_splits)

lemma set_remove_from: "set (remove_from p s) \<subseteq> set s"
proof (induction p s rule: remove_from.induct)
  case (1 prev)
  then show ?case by simp
next
  case (2 prev c cs)
  show ?case
  proof (cases "match_at prev (c # cs)")
    case None
    with "2.IH"(1) show ?thesis by auto
  next
    case (Some tok)
    from "2.IH"(2)[OF Some] have "set (remove_from prev (c # cs)) \<subseteq> set (drop (length tok) (c # cs))"
      using Some by simp
    also have "\<dots> \<subseteq> set (c # cs)" by (rule set_drop_subset)
    finally show ?thesis .
  qed
qed

lemma set_trim: "set (trim s) \<subseteq> set s"
  unfolding trim_def by (auto dest!: set_dropWhileD)

lemma length_remove_from: "length (remove_from p s) \<le> length s"
proof (induction p s rule: remove_from.induct)
  case (1 prev)
  then show ?case by simp
next
  case (2 prev c cs)
  show ?case
  proof (cases "match_at prev (c # cs)")
    case None
    with "2.IH"(1) show ?thesis by simp
  next
    case (Some tok)
    from "2.IH"(2)[OF Some] have "length (remove_from prev (c # cs)) \<le> length (drop (length tok) (c # cs))"
      using Some by simp
    also have "\<dots> \<le> length (c # cs)" by simp
    finally show ?thesis .
  qed
qed

lemma length_trim: "length (trim s) \<le> length s"
proof -
  have "length (trim s) \<le> length (dropWhile is_space s)"
    unfolding trim_def using length_dropWhile_le[of is_space "rev (dropWhile is_space s)"] by simp
  also have "\<dots> \<le> length s" by (rule length_dropWhile_le)
  finally show ?thesis .
qed

lemma length_collapse_ws: "length (collapse_ws s) \<le> length s"
proof (induction s rule: collapse_ws.induct)
  case 1
  then show ?case by simp
next
  case (2 c cs)
  show ?case
  proof (cases "is_space c")
    case True
    with "2.IH"(1) have "length (collapse_ws (dropWhile is_space cs)) \<le> length (dropWhile is_space cs)"
      by simp
    also have "\<dots> \<le> length cs" by (rule length_dropWhile_le)
    finally show ?thesis using True by simp
  next
    case False
    with "2.IH"(2) show ?thesis by simp
  qed
qed

lemma collapse_ws_shrinks: "has_double_space s \<Longrightarrow> length (collapse_ws s) < length s"
proof (induction s rule: has_double_space.induct)
  case (1 a b s)
  show ?case
  proof (cases "is_space a")
    case True
    show ?thesis
    proof (cases "is_space b")
      case b: True
      have "length (collapse_ws (dropWhile is_space s)) \<le> length (dropWhile is_space s)"
        by (rule length_collapse_ws)
      also have "\<dots> \<le> length s" by (rule length_dropWhile_le)
      finally show ?thesis using True b by simp
    next
      case b: False
      with "1.prems" have "has_double_space (b # s)" by (auto simp: SPACE_is_space)
      from "1.IH"[OF this] True b show ?thesis by simp
    qed
  next
    case False
    with "1.prems" have "has_double_space (b # s)" by (auto simp: SPACE_is_space)
    from "1.IH"[OF this] False show ?thesis by simp
  qed
qed simp_all

lemma collapse_ws_id:
  "\<forall>c\<in>set s. is_space c \<longrightarrow> c = SPACE \<Longrightarrow> \<not> has_double_space s \<Longrightarrow> collapse_ws s = s"
proof (induction s rule: has_double_space.induct)
  case (1 a b s)
  from "1.prems"(2) have nd: "\<not> has_double_space (b # s)" and ab: "\<not> (a = SPACE \<and> b = SPACE)"
    by simp_all
  from "1.prems"(1) have "\<forall>c\<in>set (b # s). is_space c \<longrightarrow> c = SPACE" by simp
  from "1.IH"[OF this nd] have ih: "collapse_ws (b # s) = b # s" .
  show ?case
  proof (cases "is_space a")
    case True
    with "1.prems"(1) have a: "a = SPACE" by simp
    with ab have "b \<noteq> SPACE" by simp
    with "1.prems"(1) have "\<not> is_space b" by auto
    then have "dropWhile is_space (b # s) = b # s" by simp
    with True a ih show ?thesis by simp
  next
    case False
    with ih show ?thesis by simp
  qed
qed auto

lemma last_dropWhile: "dropWhile P xs \<noteq> [] \<Longrightarrow> last (dropWhile P xs) = last xs"
  by (induction xs) (auto split: if_splits)

lemma trim_ends:
  "trim s = [] \<or> (\<not> is_space (hd (trim s)) \<and> \<not> is_space (last (trim s)))"
proof (cases "trim s = []")
  case True
  then show ?thesis by simp
next
  case False
  let ?d = "dropWhile is_space s"
  let ?e = "dropWhile is_space (rev ?d)"
  have t: "trim s = rev ?e" unfolding trim_def ..
  from False have e: "?e \<noteq> []" unfolding t rev_is_Nil_conv .
  have "\<not> is_space (hd ?e)" using e by (rule hd_dropWhile)
  then have l: "\<not> is_space (last (trim s))" unfolding t last_rev .
  have d: "?d \<noteq> []"
  proof
    assume "?d = []"
    then have "?e = []" by (simp only: rev.simps dropWhile.simps)
    with e show False by blast
  qed
  have "last ?e = last (rev ?d)" using e by (rule last_dropWhile)
  then have "last ?e = hd ?d" unfolding last_rev .
  moreover have "\<not> is_space (hd ?d)" using d by (rule hd_dropWhile)
  ultimately have "\<not> is_space (hd (trim s))" unfolding t hd_rev by simp
  with l show ?thesis by blast
qed

lemma trim_id:
  assumes "s = [] \<or> (\<not> is_space (hd s) \<and> \<not> is_space (last s))"
  shows "trim s = s"
proof -
  from assms have "dropWhile is_space s = s" unfolding dropWhile_eq_self_iff by blast
  moreover from assms have "dropWhile is_space (rev s) = rev s"
    unfolding dropWhile_eq_self_iff hd_rev rev_is_Nil_conv by blast
  ultimately show ?thesis unfolding trim_def by simp
qed

lemma trim_idem: "trim (trim s) = trim s"
  by (rule trim_id) (rule trim_ends)


lemmas normalize_defs = normalize_description_def remove_tokens_def trim_def match_at_def
  tokens_def token_ends_def word_boundary_def is_word_def is_space_def

lemma normalize_spaces:
  "c \<in> set (normalize_description s) \<Longrightarrow> is_space c \<Longrightarrow> c = SPACE"
proof -
  assume c: "c \<in> set (normalize_description s)" and sp: "is_space c"
  from c have "c \<in> set (remove_from None (collapse_ws s))"
    unfolding normalize_description_def remove_tokens_def using set_trim by blast
  then have "c \<in> set (collapse_ws s)" using set_remove_from by blast
  then show ?thesis using sp by (rule collapse_ws_spaces)
qed

text \<open>
  Claim C1, as amended. Applying the normalisation to its own output gives the same
  output exactly when that output has no two spaces next to each other.
\<close>

theorem idempotent_iff_no_double_space:
  "normalize_description (normalize_description s) = normalize_description s \<longleftrightarrow>
   \<not> has_double_space (normalize_description s)"
proof
  assume eq: "normalize_description (normalize_description s) = normalize_description s"
  show "\<not> has_double_space (normalize_description s)"
  proof
    let ?u = "normalize_description s"
    assume "has_double_space ?u"
    then have "length (collapse_ws ?u) < length ?u" by (rule collapse_ws_shrinks)
    moreover have "length (normalize_description ?u) \<le> length (collapse_ws ?u)"
      unfolding normalize_description_def[of ?u] remove_tokens_def
      using length_trim[of "remove_from None (collapse_ws ?u)"]
        length_remove_from[of None "collapse_ws ?u"] by simp
    ultimately have "length (normalize_description ?u) < length ?u" by simp
    with eq show False by simp
  qed
next
  let ?u = "normalize_description s"
  assume nd: "\<not> has_double_space ?u"
  have "\<forall>c\<in>set ?u. is_space c \<longrightarrow> c = SPACE" using normalize_spaces by blast
  from collapse_ws_id[OF this nd] have c: "collapse_ws ?u = ?u" .
  have "\<not> has_token None ?u"
    unfolding normalize_description_def by (rule no_token_trim[OF no_token_after_removal])
  then have r: "remove_tokens ?u = ?u" unfolding remove_tokens_def by (rule remove_from_id)
  have t: "trim ?u = ?u" unfolding normalize_description_def by (rule trim_idem)
  show "normalize_description ?u = ?u"
    unfolding normalize_description_def[of ?u] c r t ..
qed

lemma normalize_example1: "normalize_description (js ''a Show more b'') = js ''a  b''"
  by (simp add: normalize_defs js_def SPACE_def)

lemma normalize_example2: "normalize_description (js ''a  b'') = js ''a b''"
  by (simp add: normalize_defs js_def SPACE_def)

text \<open>
  The claim as stated fails where a token is removed between two spaces: both spaces
  stay and the second application collapses them.
\<close>

theorem not_idempotent_counterexample:
  "normalize_description (js ''a Show more b'') = js ''a  b'' \<and>
   normalize_description (normalize_description (js ''a Show more b'')) = js ''a b'' \<and>
   normalize_description (normalize_description (js ''a Show more b'')) \<noteq>
     normalize_description (js ''a Show more b'')"
  by (simp add: normalize_example1 normalize_example2) (simp add: js_def)

lemma normalize_example3:
  "normalize_description (js ''text Show more Show less'') = js ''text''"
  by (simp add: normalize_defs js_def SPACE_def)

text \<open>Where the tokens stand at the end of the text nothing is left of them, and the output is stable.\<close>

theorem idempotent_iff_no_double_space_witness:
  "\<not> has_double_space (normalize_description (js ''text Show more Show less'')) \<and>
   normalize_description (js ''text Show more Show less'') = js ''text'' \<and>
   normalize_description (normalize_description (js ''text Show more Show less'')) =
     normalize_description (js ''text Show more Show less'')"
proof -
  have h: "\<not> has_double_space (normalize_description (js ''text Show more Show less''))"
    unfolding normalize_example3 by (simp add: js_def SPACE_def)
  from idempotent_iff_no_double_space[of "js ''text Show more Show less''"] h normalize_example3
  show ?thesis by blast
qed






section \<open>Properties of the exporter\<close>

lemmas eval_defs = js_def NEWLINE_def DQUOTE_def SPACE_def APOSTROPHE_def field_names_def
  object_keys_def get_prop_def quoted_def csv_row_def job_row_def

lemma fold_push: "fold (\<lambda>row csv. csv @ [f row]) data csv = csv @ map f data"
  by (induction data arbitrary: csv) simp_all

lemma csv_lines_Cons:
  "csv_lines (first # rest) =
     Inr (join (js '','') (object_keys first) # map (csv_row (object_keys first)) (first # rest))"
  by (simp add: csv_lines_def fold_push Let_def)

lemma convertToCsv_Cons:
  "convertToCsv (first # rest) =
     Inr (join [NEWLINE]
       (join (js '','') (object_keys first) # map (csv_row (object_keys first)) (first # rest)))"
  by (simp add: convertToCsv_def csv_lines_Cons del: join.simps)

lemma header_text: "join (js '','') field_names = js ''title,company,location,description''"
  by (simp add: field_names_def js_def)

lemma split_lines_no_newline: "NEWLINE \<notin> set s \<Longrightarrow> split_lines s = [s]"
  by (induction s) auto

lemma split_lines_append:
  "NEWLINE \<notin> set s \<Longrightarrow> split_lines (s @ NEWLINE # t) = s # split_lines t"
  by (induction s) auto

lemma split_lines_join:
  "ls \<noteq> [] \<Longrightarrow> \<forall>l\<in>set ls. NEWLINE \<notin> set l \<Longrightarrow> split_lines (join [NEWLINE] ls) = ls"
proof (induction ls)
  case Nil
  then show ?case by simp
next
  case (Cons x xs)
  show ?case
  proof (cases xs)
    case Nil
    with Cons.prems show ?thesis by (simp add: split_lines_no_newline)
  next
    case (Cons y ys)
    with Cons.IH Cons.prems have "split_lines (join [NEWLINE] xs) = xs" by simp
    with Cons Cons.prems show ?thesis by (simp add: split_lines_append)
  qed
qed

lemma cells_own_keys:
  "distinct (map fst job) \<Longrightarrow> k \<in> set job \<Longrightarrow> quoted (get_prop job (fst k)) = [DQUOTE] @ snd k @ [DQUOTE]"
  by (cases k) (simp add: get_prop_def quoted_def)

lemma csv_row_own_keys:
  assumes d: "distinct (map fst job)"
  shows "csv_row (object_keys job) job = job_row job"
proof -
  have eq: "map ((\<lambda>key. quoted (get_prop job key)) \<circ> fst) job = map (\<lambda>(k, v). [DQUOTE] @ v @ [DQUOTE]) job"
    by (rule map_cong[OF refl]) (use cells_own_keys[OF d] in \<open>auto simp: case_prod_beta\<close>)
  show ?thesis
    unfolding csv_row_def job_row_def object_keys_def map_map eq by (rule refl)
qed

lemma set_join: "set (join sep xs) \<subseteq> set sep \<union> \<Union> (set ` set xs)"
  by (induction sep xs rule: join.induct) auto

lemma job_row_no_newline:
  assumes "\<forall>v\<in>snd ` set job. NEWLINE \<notin> set v"
  shows "NEWLINE \<notin> set (job_row job)"
proof
  assume "NEWLINE \<in> set (job_row job)"
  with set_join[of "js '',''" "map (\<lambda>(k, v). [DQUOTE] @ v @ [DQUOTE]) job"]
  have "NEWLINE \<in> set (js '','') \<union> \<Union> (set ` set (map (\<lambda>(k, v). [DQUOTE] @ v @ [DQUOTE]) job))"
    unfolding job_row_def by blast
  with assms show False
    by (auto simp: js_def NEWLINE_def DQUOTE_def)
qed

lemma header_no_newline: "NEWLINE \<notin> set (js ''title,company,location,description'')"
  by (simp add: js_def NEWLINE_def)

lemma field_names_distinct: "distinct field_names"
  by (simp add: field_names_def js_def)

text \<open>
  Claim C4. The claim: the export of an empty list of records is a document that holds
  the header row only, and is no error. In the code the array has no first element,
  \<^verbatim>\<open>Object.keys\<close> is applied to \<^verbatim>\<open>undefined\<close> and the exporter throws a TypeError: no
  document is produced. A run that finds no listing reaches this case; the handler of
  the write error catches the TypeError and no file is written.
\<close>

theorem convertToCsv_empty:
  "convertToCsv [] = Inl TypeError \<and>
   main empty_world =
     ([LoaderStarted, BrowserLaunched, PageOpened, Navigated search_url, BrowserClosed,
       LoaderStopped, ConsoleError TypeError], Inr ())"
  by (simp add: convertToCsv_def csv_lines_def main_def collect_links_def export_step_def
        export_try_def empty_world_def)

text \<open>
  Claim C6, as amended. For a non-empty list of \<open>N\<close> job records the exported document is
  the header line \<^verbatim>\<open>title,company,location,description\<close> and one row per record, in the
  order of the records, joined by newlines: \<open>N + 1\<close> rows, each value between double
  quotes and the values joined by commas. When no value contains a newline character,
  these rows are exactly the lines of the document.
\<close>

theorem export_rows:
  assumes "jobs \<noteq> []" and "\<forall>job\<in>set jobs. object_keys job = field_names"
  shows "convertToCsv jobs =
           Inr (join [NEWLINE] (js ''title,company,location,description'' # map job_row jobs)) \<and>
         length (js ''title,company,location,description'' # map job_row jobs) = length jobs + 1 \<and>
         ((\<forall>job\<in>set jobs. \<forall>v\<in>snd ` set job. NEWLINE \<notin> set v) \<longrightarrow>
            split_lines (join [NEWLINE] (js ''title,company,location,description'' # map job_row jobs)) =
              js ''title,company,location,description'' # map job_row jobs)"
proof -
  from assms(1) obtain first rest where jobs: "jobs = first # rest" by (cases jobs) auto
  have rows: "map (csv_row (object_keys first)) jobs = map job_row jobs"
  proof (rule map_cong[OF refl])
    fix job assume "job \<in> set jobs"
    with assms(2) jobs have k: "object_keys job = field_names" "object_keys first = field_names"
      by auto
    then have "distinct (map fst job)"
      using field_names_distinct by (simp add: object_keys_def)
    from csv_row_own_keys[OF this] k show "csv_row (object_keys first) job = job_row job"
      by simp
  qed
  have hd: "join (js '','') (object_keys first) = js ''title,company,location,description''"
    using assms(2) jobs header_text by simp
  have doc: "convertToCsv jobs =
           Inr (join [NEWLINE] (js ''title,company,location,description'' # map job_row jobs))"
  proof -
    have "convertToCsv jobs =
            Inr (join [NEWLINE] (join (js '','') (object_keys first) #
                   map (csv_row (object_keys first)) jobs))"
      unfolding jobs by (rule convertToCsv_Cons)
    then show ?thesis unfolding rows hd .
  qed
  have split: "split_lines (join [NEWLINE] (js ''title,company,location,description'' # map job_row jobs)) =
              js ''title,company,location,description'' # map job_row jobs"
    if "\<forall>job\<in>set jobs. \<forall>v\<in>snd ` set job. NEWLINE \<notin> set v"
  proof (rule split_lines_join)
    show "js ''title,company,location,description'' # map job_row jobs \<noteq> []" by simp
    show "\<forall>l\<in>set (js ''title,company,location,description'' # map job_row jobs). NEWLINE \<notin> set l"
      using that header_no_newline job_row_no_newline by auto
  qed
  from doc split show ?thesis by simp
qed

text \<open>The two records of the specification's example.\<close>

theorem export_rows_witness:
  "example_jobs \<noteq> [] \<and> map object_keys example_jobs = [field_names, field_names] \<and>
   NEWLINE \<notin> \<Union> (set ` snd ` \<Union> (set ` set example_jobs)) \<and>
   convertToCsv example_jobs =
     Inr (js ''title,company,location,description'' @ [NEWLINE] @
          [DQUOTE] @ js ''A'' @ [DQUOTE] @ js '','' @ [DQUOTE] @ js ''B'' @ [DQUOTE] @ js '','' @
          [DQUOTE] @ js ''C'' @ [DQUOTE] @ js '','' @ [DQUOTE] @ js ''D'' @ [DQUOTE] @ [NEWLINE] @
          [DQUOTE] @ js ''E'' @ [DQUOTE] @ js '','' @ [DQUOTE] @ js ''F'' @ [DQUOTE] @ js '','' @
          [DQUOTE] @ js ''G'' @ [DQUOTE] @ js '','' @ [DQUOTE] @ js ''H'' @ [DQUOTE]) \<and>
   length (split_lines (join [NEWLINE]
     (js ''title,company,location,description'' # map job_row example_jobs))) = 3"
proof -
  have h1: "example_jobs \<noteq> []"
    by (simp add: example_jobs_def)
  have h2: "\<forall>job\<in>set example_jobs. object_keys job = field_names"
    by (simp add: example_jobs_def object_keys_def field_names_def)
  have h3: "\<forall>job\<in>set example_jobs. \<forall>v\<in>snd ` set job. NEWLINE \<notin> set v"
    by (simp add: example_jobs_def js_def NEWLINE_def)
  have rows: "map job_row example_jobs =
      [[DQUOTE] @ js ''A'' @ [DQUOTE] @ js '','' @ [DQUOTE] @ js ''B'' @ [DQUOTE] @ js '','' @
          [DQUOTE] @ js ''C'' @ [DQUOTE] @ js '','' @ [DQUOTE] @ js ''D'' @ [DQUOTE],
          [DQUOTE] @ js ''E'' @ [DQUOTE] @ js '','' @ [DQUOTE] @ js ''F'' @ [DQUOTE] @ js '','' @
          [DQUOTE] @ js ''G'' @ [DQUOTE] @ js '','' @ [DQUOTE] @ js ''H'' @ [DQUOTE]]"
    by (simp add: example_jobs_def job_row_def js_def)
  have h4: "map object_keys example_jobs = [field_names, field_names]"
    by (simp add: example_jobs_def object_keys_def field_names_def)
  have h5: "NEWLINE \<notin> \<Union> (set ` snd ` \<Union> (set ` set example_jobs))"
    using h3 by blast
  from export_rows[OF h1 h2] h1 h3 h4 h5 show ?thesis
    by (simp add: rows)
qed

text \<open>
  The claim as stated fails for a record whose title holds a newline character: the
  document of this single record has three lines.
\<close>

theorem export_lines_counterexample:
  "object_keys newline_job = field_names \<and>
   convertToCsv [newline_job] =
     Inr (js ''title,company,location,description'' @ [NEWLINE] @
          [DQUOTE] @ js ''A'' @ [NEWLINE] @ js ''B'' @ [DQUOTE] @ js '','' @
          [DQUOTE] @ js ''C'' @ [DQUOTE] @ js '','' @ [DQUOTE] @ js ''D'' @ [DQUOTE] @ js '','' @
          [DQUOTE] @ js ''E'' @ [DQUOTE]) \<and>
   length (split_lines
         (js ''title,company,location,description'' @ [NEWLINE] @
          [DQUOTE] @ js ''A'' @ [NEWLINE] @ js ''B'' @ [DQUOTE] @ js '','' @
          [DQUOTE] @ js ''C'' @ [DQUOTE] @ js '','' @ [DQUOTE] @ js ''D'' @ [DQUOTE] @ js '','' @
          [DQUOTE] @ js ''E'' @ [DQUOTE])) \<noteq> length [newline_job] + 1"
  by (simp add: convertToCsv_def csv_lines_def newline_job_def eval_defs)

section \<open>Properties of the extractor and of the run\<close>

lemma extract_fields_selectors:
  assumes "extract_fields pg selectors [] = Inr job"
  shows "\<exists>t c l d. job = [(js ''title'', t), (js ''company'', c), (js ''location'', l), (js ''description'', d)]"
  using assms
  by (auto simp: selectors_def js_def split: option.splits)

lemma scrapeJobDetails_keys:
  assumes "scrapeJobDetails w i l = (ev, Inr job)"
  shows "object_keys job = field_names"
proof -
  from assms obtain pg job0 d where pg: "detail_page w i l = Some pg"
    and j0: "extract_fields pg selectors [] = Inr job0"
    and d: "get_prop job0 (js ''description'') = Str d"
    and job: "job = set_prop job0 (js ''description'') (normalize_description d)"
    by (auto simp: scrapeJobDetails_def split: option.splits sum.splits jsval.splits)
  from extract_fields_selectors[OF j0] obtain t c l' d' where
    "job0 = [(js ''title'', t), (js ''company'', c), (js ''location'', l'), (js ''description'', d')]"
    by blast
  with job show ?thesis
    by (simp add: object_keys_def field_names_def js_def)
qed

lemma extract_fields_missing:
  "(key, selector) \<in> set sels \<Longrightarrow> pg selector = None \<Longrightarrow>
   extract_fields pg sels job = Inl ElementNotFound"
  by (induction pg sels job rule: extract_fields.induct) (auto split: option.splits)

lemma scrapeJobDetails_events:
  "set (fst (scrapeJobDetails w i l)) \<subseteq> range Navigated"
  by (auto simp: scrapeJobDetails_def split: option.splits)

lemma scrape_loop_events:
  "set (fst (scrape_loop w i ls acc)) \<subseteq> range Navigated"
proof (induction ls arbitrary: i acc)
  case Nil
  then show ?case by simp
next
  case (Cons l ls)
  obtain ev r where s: "scrapeJobDetails w i l = (ev, r)" by (cases "scrapeJobDetails w i l")
  with scrapeJobDetails_events[of w i l] have ev: "set ev \<subseteq> range Navigated" by simp
  show ?case
  proof (cases r)
    case (Inl e)
    with s ev show ?thesis by simp
  next
    case (Inr d)
    obtain ev' r' where l: "scrape_loop w (Suc i) ls (acc @ [d]) = (ev', r')"
      by (cases "scrape_loop w (Suc i) ls (acc @ [d])")
    with Cons.IH[of "Suc i" "acc @ [d]"] have "set ev' \<subseteq> range Navigated" by simp
    with s Inr l ev show ?thesis by simp
  qed
qed

lemma scrape_loop_abort:
  "n < length ls \<Longrightarrow> snd (scrapeJobDetails w (i + n) (ls ! n)) = Inl e \<Longrightarrow>
   \<exists>e'. snd (scrape_loop w i ls acc) = Inl e'"
proof (induction ls arbitrary: i n acc)
  case Nil
  then show ?case by simp
next
  case (Cons l ls)
  obtain ev r where s: "scrapeJobDetails w i l = (ev, r)" by (cases "scrapeJobDetails w i l")
  show ?case
  proof (cases r)
    case (Inl e0)
    with s show ?thesis by simp
  next
    case (Inr d)
    with s Cons.prems obtain m where n: "n = Suc m" by (cases n) auto
    with Cons.prems have "m < length ls" "snd (scrapeJobDetails w (Suc i + m) (ls ! m)) = Inl e"
      by simp_all
    from Cons.IH[OF this, of "acc @ [d]"] obtain e' where
      "snd (scrape_loop w (Suc i) ls (acc @ [d])) = Inl e'" by blast
    with s Inr show ?thesis by (auto split: prod.splits)
  qed
qed

lemma export_step_result: "snd (export_step w jobs) = Inr ()"
  by (auto simp: export_step_def export_try_def split: sum.splits prod.splits)

lemma extract_full_page:
  "extract_fields full_page selectors [] =
     Inr [(js ''title'', js ''Web Developer Show more Show less''),
          (js ''company'', js ''Web Developer Show more Show less''),
          (js ''location'', js ''Web Developer Show more Show less''),
          (js ''description'', js ''Web Developer Show more Show less'')]"
  by (simp add: selectors_def full_page_def trim_def is_space_def js_def)


lemma normalize_full_text:
  "normalize_description (js ''Web Developer Show more Show less'') = js ''Web Developer''"
  by (simp add: normalize_defs js_def SPACE_def)

lemma scrape_full_page:
  "detail_page w i l = Some full_page \<Longrightarrow> scrapeJobDetails w i l = ([Navigated l], Inr full_job)"
  by (simp add: scrapeJobDetails_def extract_full_page get_prop_def normalize_full_text full_job_def)
     (simp add: js_def)





text \<open>
  Claim C5. If, on the page of some listing, a selector of the four fields matches no
  element, the extraction of that record fails, the run ends with a rejection and no file
  is written, whatever was collected before.
\<close>

theorem missing_element_aborts:
  assumes "search_page w = Some links" and "n < length links"
    and "detail_page w n (href (links ! n)) = Some pg"
    and "(key, selector) \<in> set selectors" and "pg selector = None"
  shows "snd (scrapeJobDetails w n (href (links ! n))) = Inl ElementNotFound \<and>
         (\<exists>e. snd (main w) = Inl e) \<and>
         (\<forall>path data. FileWritten path data \<notin> set (fst (main w)))"
proof -
  have s: "snd (scrapeJobDetails w n (href (links ! n))) = Inl ElementNotFound"
    using assms(3) extract_fields_missing[of key selector selectors pg "[]", OF assms(4,5)]
    by (simp add: scrapeJobDetails_def)
  with assms(2) have "n < length (map href links)"
    "snd (scrapeJobDetails w (0 + n) (map href links ! n)) = Inl ElementNotFound"
    by simp_all
  from scrape_loop_abort[OF this] obtain e' where
    l: "snd (scrape_loop w 0 (map href links) []) = Inl e'" by blast
  obtain ev2 where l': "scrape_loop w 0 (map href links) [] = (ev2, Inl e')"
    using l by (cases "scrape_loop w 0 (map href links) []") auto
  from scrape_loop_events[of w 0 "map href links" "[]"] l'
  have ev2: "set ev2 \<subseteq> range Navigated" by simp
  have "\<exists>e. snd (main w) = Inl e"
    using assms(1) l' by (simp add: main_def collect_links_def)
  moreover have "FileWritten path data \<notin> set (fst (main w))" for path data
    using assms(1) l' ev2 by (auto simp: main_def collect_links_def)
  ultimately show ?thesis using s by blast
qed

text \<open>The page of the second listing of \<open>broken_world\<close> has no description.\<close>

theorem missing_element_aborts_witness:
  "search_page broken_world = Some [Anchor link1, Anchor link2] \<and>
   detail_page broken_world 1 link2 = Some bare_page \<and>
   bare_page (js ''section.show-more-less-html'') = None \<and>
   scrape_loop broken_world 0 [link1] [] = ([Navigated link1], Inr [full_job]) \<and>
   snd (scrapeJobDetails broken_world 1 link2) = Inl ElementNotFound \<and>
   (\<exists>e. snd (main broken_world) = Inl e) \<and>
   (\<forall>path data. FileWritten path data \<notin> set (fst (main broken_world)))"
proof -
  have h1: "search_page broken_world = Some [Anchor link1, Anchor link2]"
    by (simp add: broken_world_def)
  have h2: "(1::nat) < length [Anchor link1, Anchor link2]" by simp
  have h3: "detail_page broken_world 1 (href ([Anchor link1, Anchor link2] ! 1)) = Some bare_page"
    by (simp add: broken_world_def)
  have h4: "(js ''description'', js ''section.show-more-less-html'') \<in> set selectors"
    by (simp add: selectors_def)
  have h5: "bare_page (js ''section.show-more-less-html'') = None"
    by (simp add: bare_page_def js_def)
  have h6: "scrape_loop broken_world 0 [link1] [] = ([Navigated link1], Inr [full_job])"
    by (simp add: scrape_full_page broken_world_def)
  from missing_element_aborts[OF h1 h2 h3 h4 h5] h1 h3 h5 h6 show ?thesis
    by simp
qed

lemma extract_fields_error:
  "extract_fields pg sels job = Inl e \<Longrightarrow> e = ElementNotFound"
  by (induction pg sels job rule: extract_fields.induct) (auto split: option.splits)

lemma main_not_write_failed: "snd (main w) \<noteq> Inl WriteFailed"
proof -
  have a: "snd (scrapeJobDetails w i l) \<noteq> Inl WriteFailed" for i l
    by (auto simp: scrapeJobDetails_def dest: extract_fields_error split: option.splits sum.splits jsval.splits)
  have b: "snd (scrape_loop w i ls acc) \<noteq> Inl WriteFailed" for i ls acc
  proof (induction ls arbitrary: i acc)
    case Nil
    then show ?case by simp
  next
    case (Cons l ls)
    show ?case
    proof (cases "scrapeJobDetails w i l")
      case (Pair ev r)
      show ?thesis
      proof (cases r)
        case (Inl e)
        with Pair a[of i l] show ?thesis by auto
      next
        case (Inr d)
        with Pair Cons.IH[of "Suc i" "acc @ [d]"] show ?thesis
          by (cases "scrape_loop w (Suc i) ls (acc @ [d])") auto
      qed
    qed
  qed
  have b': "scrape_loop w i ls acc \<noteq> (ev, Inl WriteFailed)" for i ls acc ev
    using b[of i ls acc] by auto
  have c: "export_step w jobs \<noteq> (ev, Inl e)" for jobs ev e
    using export_step_result[of w jobs] by auto
  show ?thesis
    by (auto simp: main_def collect_links_def b' c split: option.splits prod.splits sum.splits)
qed


text \<open>
  Claim C7. The export step never rejects: a failure of the write is caught and
  reported on the console, and a run never ends with the write error.
\<close>

theorem write_failure_is_caught:
  "snd (export_step w jobDetails) = Inr () \<and>
   snd (main w) \<noteq> Inl WriteFailed \<and>
   (convertToCsv jobDetails = Inr csvData \<and> \<not> write_ok w output_path csvData \<longrightarrow>
      export_try w jobDetails = ([], Inl WriteFailed) \<and>
      export_step w jobDetails = ([ConsoleError WriteFailed], Inr ()))"
  using export_step_result[of w jobDetails] main_not_write_failed[of w]
  by (simp add: export_step_def export_try_def)

lemma readonly_main:
  "main readonly_world =
     ([LoaderStarted, BrowserLaunched, PageOpened, Navigated search_url, Navigated link1,
       BrowserClosed, LoaderStopped, ConsoleError WriteFailed], Inr ())"
  by (simp add: main_def collect_links_def scrape_full_page export_step_def export_try_def
        convertToCsv_def csv_lines_def readonly_world_def Let_def)

text \<open>A run whose write fails ends normally, with the message on the console.\<close>

theorem write_failure_is_caught_witness:
  "convertToCsv [full_job] = Inr (join [NEWLINE] [join (js '','') field_names, job_row full_job]) \<and>
   \<not> write_ok readonly_world output_path (join [NEWLINE] [join (js '','') field_names, job_row full_job]) \<and>
   export_try readonly_world [full_job] = ([], Inl WriteFailed) \<and>
   export_step readonly_world [full_job] = ([ConsoleError WriteFailed], Inr ()) \<and>
   main readonly_world =
     ([LoaderStarted, BrowserLaunched, PageOpened, Navigated search_url, Navigated link1,
       BrowserClosed, LoaderStopped, ConsoleError WriteFailed], Inr ())"
proof -
  have h1: "convertToCsv [full_job] = Inr (join [NEWLINE] [join (js '','') field_names, job_row full_job])"
    by (simp add: convertToCsv_def csv_lines_def full_job_def eval_defs)
  have h2: "\<not> write_ok readonly_world output_path (join [NEWLINE] [join (js '','') field_names, job_row full_job])"
    by (simp add: readonly_world_def)
  from write_failure_is_caught[of readonly_world "[full_job]"] h1 h2 readonly_main
  show ?thesis by simp
qed

text \<open>
  Claim C9. When no anchor of the search page matches the marker of a listing card, the
  collection of links gives the empty list and no error, and the extraction loop on it
  gives no record.
\<close>

theorem no_listing_no_record:
  assumes "search_page w = Some []"
  shows "collect_links w = ([Navigated search_url], Inr []) \<and>
         (\<forall>jobLinks. snd (collect_links w) = Inr jobLinks \<longrightarrow>
            scrape_loop w 0 jobLinks [] = ([], Inr [])) \<and>
         (launch_ok w \<and> newpage_ok w \<longrightarrow> snd (main w) = Inr ())"
proof -
  have links: "collect_links w = ([Navigated search_url], Inr [])"
    using assms by (simp add: collect_links_def)
  have "snd (main w) = Inr ()" if "launch_ok w \<and> newpage_ok w"
    using that links export_step_result[of w "[]"]
    by (cases "export_step w []") (simp add: main_def)
  with links show ?thesis by simp
qed

text \<open>The run on a search page without listing cards.\<close>

theorem no_listing_no_record_witness:
  "search_page empty_world = Some [] \<and>
   launch_ok empty_world \<and> newpage_ok empty_world \<and>
   collect_links empty_world = ([Navigated search_url], Inr []) \<and>
   scrape_loop empty_world 0 [] [] = ([], Inr []) \<and>
   snd (main empty_world) = Inr ()"
proof -
  have h: "search_page empty_world = Some []" by (simp add: empty_world_def)
  have l: "launch_ok empty_world \<and> newpage_ok empty_world" by (simp add: empty_world_def)
  from no_listing_no_record[OF h] h l show ?thesis by simp
qed

lemma split_lines_join_hd:
  "NEWLINE \<notin> set h \<Longrightarrow> hd (split_lines (join [NEWLINE] (h # rows))) = h"
  by (cases rows) (simp_all add: split_lines_no_newline split_lines_append)

text \<open>
  Claim C8. Every record that the extractor produces has the keys title, company,
  location, description, in this order, and the header row of the document exported from
  such records is these names in the same order.
\<close>

theorem record_keys_match_header:
  assumes "\<forall>job\<in>set jobDetails. \<exists>w i jobLink ev. scrapeJobDetails w i jobLink = (ev, Inr job)"
  shows "(\<forall>job\<in>set jobDetails. object_keys job = field_names) \<and>
         (jobDetails \<noteq> [] \<longrightarrow>
            (\<exists>rows. csv_lines jobDetails = Inr (join (js '','') field_names # rows) \<and>
               convertToCsv jobDetails = Inr (join [NEWLINE] (join (js '','') field_names # rows)) \<and>
               hd (split_lines (join [NEWLINE] (join (js '','') field_names # rows))) =
                 join (js '','') field_names))"
proof -
  have keys: "\<forall>job\<in>set jobDetails. object_keys job = field_names"
    using assms scrapeJobDetails_keys by blast
  have "\<exists>rows. csv_lines jobDetails = Inr (join (js '','') field_names # rows) \<and>
               convertToCsv jobDetails = Inr (join [NEWLINE] (join (js '','') field_names # rows)) \<and>
               hd (split_lines (join [NEWLINE] (join (js '','') field_names # rows))) =
                 join (js '','') field_names"
    if "jobDetails \<noteq> []"
  proof -
    from that obtain first rest where j: "jobDetails = first # rest" by (cases jobDetails) auto
    with keys have k: "object_keys first = field_names" by simp
    let ?rows = "map (csv_row field_names) jobDetails"
    have "csv_lines jobDetails = Inr (join (js '','') field_names # ?rows)"
      unfolding j csv_lines_Cons k ..
    moreover have "convertToCsv jobDetails = Inr (join [NEWLINE] (join (js '','') field_names # ?rows))"
      unfolding j convertToCsv_Cons k ..
    moreover have "hd (split_lines (join [NEWLINE] (join (js '','') field_names # ?rows))) =
                 join (js '','') field_names"
      by (rule split_lines_join_hd) (simp add: header_text header_no_newline)
    ultimately show ?thesis by blast
  qed
  with keys show ?thesis by blast
qed

text \<open>The record that is read from \<open>full_page\<close>.\<close>

theorem record_keys_match_header_witness:
  "scrapeJobDetails readonly_world 0 link1 = ([Navigated link1], Inr full_job) \<and>
   object_keys full_job = field_names \<and>
   (\<exists>rows. csv_lines [full_job] = Inr (js ''title,company,location,description'' # rows) \<and>
      convertToCsv [full_job] = Inr (join [NEWLINE] (js ''title,company,location,description'' # rows)) \<and>
      hd (split_lines (join [NEWLINE] (js ''title,company,location,description'' # rows))) =
        js ''title,company,location,description'')"
proof -
  have s: "scrapeJobDetails readonly_world 0 link1 = ([Navigated link1], Inr full_job)"
    by (rule scrape_full_page) (simp add: readonly_world_def)
  then have h: "\<forall>job\<in>set [full_job]. \<exists>w i jobLink ev. scrapeJobDetails w i jobLink = (ev, Inr job)"
    by auto
  from record_keys_match_header[OF h] s show ?thesis
    by (simp add: header_text)
qed






end
